theory Spec2Isabelle
  imports Main "HOL-Library.Word"
begin

section \<open>Reference inner product of the gtests (test_inner_product.cpp)\<close>

text \<open>
  The embedding follows \<^verbatim>\<open>tests/gtests/test_inner_product.cpp\<close>.
  \<^item> \<^verbatim>\<open>uint32_t\<close> is \<open>32 word\<close>: the index arithmetic of the loops wraps around.
  \<^item> The four data pointers index one flat store of elements, \<open>nat \<Rightarrow> 'a\<close>
    (addresses counted in elements): \<^verbatim>\<open>p[i]\<close> is the store at \<open>p + i\<close>, and the
    null pointer is \<open>0\<close>. Buffers may therefore overlap in the model; where a
    result needs them apart, this is a hypothesis. C++ leaves an access through
    a null pointer or outside a buffer undefined; the model reads and writes the
    store at that address all the same.
  \<^item> The element type \<^verbatim>\<open>data_t\<close> is a type variable with \<open>0\<close>, \<open>+\<close> and \<open>*\<close> and
    no law assumed about them, so that every result holds for an arithmetic
    that is neither associative nor commutative.
  \<^item> \<^verbatim>\<open>map_index\<close> is declared in \<^verbatim>\<open>mkldnn_test_common.hpp\<close>; the functions
    below take it as their first argument.
\<close>

subsection \<open>Data\<close>

type_synonym uint32_t = "32 word"

record test_inner_product_descr_t =
  mb :: uint32_t
  ic :: uint32_t
  oc :: uint32_t
  kh :: uint32_t
  kw :: uint32_t

datatype format = format_x | format_nc | format_oi | format_nchw | format_oihw
  | format_nChw8c | format_oIhw8i

datatype precision = f32

datatype engine_kind = cpu | cpu_lazy

datatype prop_kind = forward

text \<open>A memory descriptor as \<^verbatim>\<open>create_md(dims, prec, format)\<close> receives it.\<close>

record memory_desc =
  dims :: "nat list"
  prec :: precision
  fmt :: format

text \<open>A memory: what \<^verbatim>\<open>get_data_handle()\<close> and
  \<^verbatim>\<open>get_primitive_desc().desc()\<close> return.\<close>

record memory =
  data_handle :: nat
  desc :: memory_desc

record inprod_test_params =
  aprop_kind :: prop_kind
  engine_kind :: engine_kind
  src_format :: format
  weights_format :: format
  bias_format :: format
  dst_format :: format
  test_ipd :: test_inner_product_descr_t

type_synonym 'a store = "nat \<Rightarrow> 'a"

subsection \<open>Counting loops\<close>

text \<open>\<^verbatim>\<open>for (uint32_t i = i0; i < n; i++) s = body(i, s);\<close>\<close>

function for_loop :: "uint32_t \<Rightarrow> uint32_t \<Rightarrow> (uint32_t \<Rightarrow> 's \<Rightarrow> 's) \<Rightarrow> 's \<Rightarrow> 's" where
  "for_loop i n body s = (if i < n then for_loop (i + 1) n body (body i s) else s)"
  by pat_completeness auto
termination
proof (relation "measure (\<lambda>(i, n, body, s). unat n - unat i)")
  show "wf (measure (\<lambda>(i :: uint32_t, n :: uint32_t, body :: uint32_t \<Rightarrow> 's \<Rightarrow> 's, s :: 's).
      unat n - unat i))"
    by simp
next
  fix i n :: uint32_t and body :: "uint32_t \<Rightarrow> 's \<Rightarrow> 's" and s :: 's
  assume lt: "i < n"
  then have "unat i < unat n"
    by (simp add: word_less_nat_alt)
  moreover have "unat n < 2 ^ 32"
    using unsigned_less [of n, where ?'a = nat] by simp
  ultimately have "unat i + 1 < 2 ^ LENGTH(32)"
    by simp
  then have "unat (i + 1) = Suc (unat i)"
    by (simp add: unat_word_ariths)
  with \<open>unat i < unat n\<close> show "((i + 1, n, body, body i s), (i, n, body, s))
      \<in> measure (\<lambda>(i, n, body, s). unat n - unat i)"
    by simp
qed

declare for_loop.simps [simp del]

subsection \<open>The linear indices of the loop body\<close>

text \<open>\<^verbatim>\<open>uint32_t oidx = n * ipd.oc + oc;\<close>\<close>

definition oidx :: "test_inner_product_descr_t \<Rightarrow> uint32_t \<Rightarrow> uint32_t \<Rightarrow> uint32_t" where
  "oidx ipd n k = n * oc ipd + k"

text \<open>\<^verbatim>\<open>uint32_t iidx = n * ipd.ic * ipd.kh * ipd.kw + ic * ipd.kh * ipd.kw + kh * ipd.kw + kw;\<close>\<close>

definition iidx :: "test_inner_product_descr_t \<Rightarrow> uint32_t \<Rightarrow> uint32_t \<Rightarrow> uint32_t
    \<Rightarrow> uint32_t \<Rightarrow> uint32_t" where
  "iidx ipd n c h w = n * ic ipd * kh ipd * kw ipd + c * kh ipd * kw ipd + h * kw ipd + w"

text \<open>\<^verbatim>\<open>uint32_t widx = oc * ipd.ic * ipd.kh * ipd.kw + ic * ipd.kh * ipd.kw + kh * ipd.kw + kw;\<close>\<close>

definition widx :: "test_inner_product_descr_t \<Rightarrow> uint32_t \<Rightarrow> uint32_t \<Rightarrow> uint32_t
    \<Rightarrow> uint32_t \<Rightarrow> uint32_t" where
  "widx ipd k c h w = k * ic ipd * kh ipd * kw ipd + c * kh ipd * kw ipd + h * kw ipd + w"

subsection \<open>compute_ref_inner_product_fwd\<close>

text \<open>
  The function of the source, loop for loop. The store is the state; the
  loop variables \<^verbatim>\<open>n, oc, ic, kh, kw\<close> are \<open>n, k, c, h, w\<close> here, since the
  record fields have the names of the source.
\<close>

definition compute_ref_inner_product_fwd ::
  "(memory_desc \<Rightarrow> nat \<Rightarrow> nat) \<Rightarrow> test_inner_product_descr_t
    \<Rightarrow> memory \<Rightarrow> memory \<Rightarrow> memory \<Rightarrow> memory
    \<Rightarrow> ('a :: {zero, plus, times}) store \<Rightarrow> 'a store" where
  "compute_ref_inner_product_fwd map_index ipd src weights bias dst =
    (let src_data = data_handle src;
         weights_data = data_handle weights;
         bias_data = data_handle bias;
         dst_data = data_handle dst;
         src_d = desc src;
         weights_d = desc weights;
         bias_d = desc bias;
         dst_d = desc dst
     in for_loop 0 (mb ipd) (\<lambda>n.
          for_loop 0 (oc ipd) (\<lambda>k mem0.
            for_loop 0 (ic ipd) (\<lambda>c.
              for_loop 0 (kh ipd) (\<lambda>h.
                for_loop 0 (kw ipd) (\<lambda>w mem.
                  mem (dst_data + map_index dst_d (unat (oidx ipd n k)) :=
                    mem (dst_data + map_index dst_d (unat (oidx ipd n k)))
                    + mem (src_data + map_index src_d (unat (iidx ipd n c h w)))
                      * mem (weights_data + map_index weights_d (unat (widx ipd k c h w)))))))
              (mem0 (dst_data + map_index dst_d (unat (oidx ipd n k)) :=
                 (if bias_data \<noteq> 0 then mem0 (bias_data + map_index bias_d (unat k))
                  else 0))))))"

subsection \<open>The iteration space and the addresses it touches\<close>

text \<open>The values a counter takes in \<^verbatim>\<open>for (uint32_t i = 0; i < n; i++)\<close>, in order.\<close>

definition loop_range :: "uint32_t \<Rightarrow> uint32_t list" where
  "loop_range n = map of_nat [0..<unat n]"

text \<open>The \<open>(n, oc)\<close> pairs of the two outer loops and the \<open>(ic, kh, kw)\<close> triples
  of the three inner ones, in loop order.\<close>

definition pairs :: "test_inner_product_descr_t \<Rightarrow> (uint32_t \<times> uint32_t) list" where
  "pairs ipd = concat (map (\<lambda>n. map (\<lambda>k. (n, k)) (loop_range (oc ipd))) (loop_range (mb ipd)))"

definition triples :: "test_inner_product_descr_t \<Rightarrow> (uint32_t \<times> uint32_t \<times> uint32_t) list" where
  "triples ipd = concat (map (\<lambda>c. concat (map (\<lambda>h. map (\<lambda>w. (c, h, w))
     (loop_range (kw ipd))) (loop_range (kh ipd)))) (loop_range (ic ipd)))"

text \<open>The addresses of the four element accesses of the loop body.\<close>

definition dst_addr :: "(memory_desc \<Rightarrow> nat \<Rightarrow> nat) \<Rightarrow> test_inner_product_descr_t \<Rightarrow> memory
    \<Rightarrow> uint32_t \<times> uint32_t \<Rightarrow> nat" where
  "dst_addr map_index ipd dst p =
     data_handle dst + map_index (desc dst) (unat (oidx ipd (fst p) (snd p)))"

definition bias_addr :: "(memory_desc \<Rightarrow> nat \<Rightarrow> nat) \<Rightarrow> memory \<Rightarrow> uint32_t \<Rightarrow> nat" where
  "bias_addr map_index bias k = data_handle bias + map_index (desc bias) (unat k)"

definition src_addr :: "(memory_desc \<Rightarrow> nat \<Rightarrow> nat) \<Rightarrow> test_inner_product_descr_t \<Rightarrow> memory
    \<Rightarrow> uint32_t \<Rightarrow> uint32_t \<times> uint32_t \<times> uint32_t \<Rightarrow> nat" where
  "src_addr map_index ipd src n t =
     data_handle src + map_index (desc src) (unat (iidx ipd n (fst t) (fst (snd t)) (snd (snd t))))"

definition weights_addr :: "(memory_desc \<Rightarrow> nat \<Rightarrow> nat) \<Rightarrow> test_inner_product_descr_t \<Rightarrow> memory
    \<Rightarrow> uint32_t \<Rightarrow> uint32_t \<times> uint32_t \<times> uint32_t \<Rightarrow> nat" where
  "weights_addr map_index ipd weights k t =
     data_handle weights
       + map_index (desc weights) (unat (widx ipd k (fst t) (fst (snd t)) (snd (snd t))))"

text \<open>All destination addresses written, and all addresses read from the source,
  weights and bias buffers, as lists (so that they can be evaluated).\<close>

definition dst_addrs :: "(memory_desc \<Rightarrow> nat \<Rightarrow> nat) \<Rightarrow> test_inner_product_descr_t \<Rightarrow> memory
    \<Rightarrow> nat list" where
  "dst_addrs map_index ipd dst = map (dst_addr map_index ipd dst) (pairs ipd)"

definition read_addrs :: "(memory_desc \<Rightarrow> nat \<Rightarrow> nat) \<Rightarrow> test_inner_product_descr_t
    \<Rightarrow> memory \<Rightarrow> memory \<Rightarrow> memory \<Rightarrow> nat list" where
  "read_addrs map_index ipd src weights bias =
     concat (map (\<lambda>n. map (src_addr map_index ipd src n) (triples ipd)) (loop_range (mb ipd)))
     @ concat (map (\<lambda>k. map (weights_addr map_index ipd weights k) (triples ipd))
         (loop_range (oc ipd)))
     @ (if data_handle bias \<noteq> 0 then map (bias_addr map_index bias) (loop_range (oc ipd))
        else [])"

subsection \<open>The loop body as atomic actions\<close>

text \<open>
  One execution of line 49 (the store of the bias or of zero) and one execution
  of line 58 (one multiply-accumulate), named by the loop variables. They are
  the units that a schedule of the \<^verbatim>\<open>omp parallel for collapse(2)\<close> orders.
\<close>

datatype action =
  Init "uint32_t \<times> uint32_t"
  | Acc "uint32_t \<times> uint32_t" "uint32_t \<times> uint32_t \<times> uint32_t"

fun action_pair :: "action \<Rightarrow> uint32_t \<times> uint32_t" where
  "action_pair (Init p) = p"
| "action_pair (Acc p t) = p"

fun exec_action :: "(memory_desc \<Rightarrow> nat \<Rightarrow> nat) \<Rightarrow> test_inner_product_descr_t
    \<Rightarrow> memory \<Rightarrow> memory \<Rightarrow> memory \<Rightarrow> memory
    \<Rightarrow> action \<Rightarrow> ('a :: {zero, plus, times}) store \<Rightarrow> 'a store" where
  "exec_action map_index ipd src weights bias dst (Init p) mem =
     mem (dst_addr map_index ipd dst p :=
       (if data_handle bias \<noteq> 0 then mem (bias_addr map_index bias (snd p)) else 0))"
| "exec_action map_index ipd src weights bias dst (Acc p t) mem =
     mem (dst_addr map_index ipd dst p :=
       mem (dst_addr map_index ipd dst p)
       + mem (src_addr map_index ipd src (fst p) t)
         * mem (weights_addr map_index ipd weights (snd p) t))"

text \<open>The actions of one \<open>(n, oc)\<close> pair in the order of the inner loops, and the
  sequential schedule: the pairs one after the other in the order of the outer loops.\<close>

definition pair_actions :: "test_inner_product_descr_t \<Rightarrow> uint32_t \<times> uint32_t \<Rightarrow> action list" where
  "pair_actions ipd p = Init p # map (Acc p) (triples ipd)"

definition seq_schedule :: "test_inner_product_descr_t \<Rightarrow> action list" where
  "seq_schedule ipd = concat (map (pair_actions ipd) (pairs ipd))"

text \<open>
  A schedule of the parallel loop: every action belongs to a pair of the
  iteration space, and the actions of each pair occur exactly once each and in
  the order of the inner loops. Actions of different pairs may be interleaved
  in any way; a permutation of the pairs is the special case without
  interleaving.
\<close>

definition schedule :: "test_inner_product_descr_t \<Rightarrow> action list \<Rightarrow> bool" where
  "schedule ipd acts \<longleftrightarrow>
     list_all (\<lambda>a. action_pair a \<in> set (pairs ipd)) acts
     \<and> list_all (\<lambda>p. filter (\<lambda>a. action_pair a = p) acts = pair_actions ipd p) (pairs ipd)"

text \<open>The value one output element receives: the bias (or zero), then one
  multiply-accumulate per triple, in loop order, all read from the store \<open>mem\<close>.\<close>

definition ref_value :: "(memory_desc \<Rightarrow> nat \<Rightarrow> nat) \<Rightarrow> test_inner_product_descr_t
    \<Rightarrow> memory \<Rightarrow> memory \<Rightarrow> memory
    \<Rightarrow> ('a :: {zero, plus, times}) store \<Rightarrow> uint32_t \<times> uint32_t \<Rightarrow> 'a" where
  "ref_value map_index ipd src weights bias mem p =
     foldl (\<lambda>acc t. acc + mem (src_addr map_index ipd src (fst p) t)
                         * mem (weights_addr map_index ipd weights (snd p) t))
       (if data_handle bias \<noteq> 0 then mem (bias_addr map_index bias (snd p)) else 0)
       (triples ipd)"

text \<open>The actions the loops can perform: the pair and the triple are in the
  iteration space.\<close>

fun valid_action :: "test_inner_product_descr_t \<Rightarrow> action \<Rightarrow> bool" where
  "valid_action ipd (Init p) \<longleftrightarrow> p \<in> set (pairs ipd)"
| "valid_action ipd (Acc p t) \<longleftrightarrow> p \<in> set (pairs ipd) \<and> t \<in> set (triples ipd)"

subsection \<open>The calls of map_index\<close>

text \<open>
  A twin of \<^verbatim>\<open>compute_ref_inner_product_fwd\<close> with a ghost log: the same loops on
  the same store, and every call \<^verbatim>\<open>map_index(md, index)\<close> appended to a list as
  the pair \<open>(md, index)\<close>. Lemma \<open>traced_erasure\<close> below shows that dropping the
  log gives back the function above.
\<close>

type_synonym call = "memory_desc \<times> nat"

definition traced_compute_ref_inner_product_fwd ::
  "(memory_desc \<Rightarrow> nat \<Rightarrow> nat) \<Rightarrow> test_inner_product_descr_t
    \<Rightarrow> memory \<Rightarrow> memory \<Rightarrow> memory \<Rightarrow> memory
    \<Rightarrow> ('a :: {zero, plus, times}) store \<times> call list \<Rightarrow> 'a store \<times> call list" where
  "traced_compute_ref_inner_product_fwd map_index ipd src weights bias dst =
    (let src_data = data_handle src;
         weights_data = data_handle weights;
         bias_data = data_handle bias;
         dst_data = data_handle dst;
         src_d = desc src;
         weights_d = desc weights;
         bias_d = desc bias;
         dst_d = desc dst
     in for_loop 0 (mb ipd) (\<lambda>n.
          for_loop 0 (oc ipd) (\<lambda>k s0.
            for_loop 0 (ic ipd) (\<lambda>c.
              for_loop 0 (kh ipd) (\<lambda>h.
                for_loop 0 (kw ipd) (\<lambda>w s.
                  ((fst s) (dst_data + map_index dst_d (unat (oidx ipd n k)) :=
                     fst s (dst_data + map_index dst_d (unat (oidx ipd n k)))
                     + fst s (src_data + map_index src_d (unat (iidx ipd n c h w)))
                       * fst s (weights_data + map_index weights_d (unat (widx ipd k c h w)))),
                   snd s @ [(dst_d, unat (oidx ipd n k)), (src_d, unat (iidx ipd n c h w)),
                            (weights_d, unat (widx ipd k c h w))]))))
              ((fst s0) (dst_data + map_index dst_d (unat (oidx ipd n k)) :=
                  (if bias_data \<noteq> 0 then fst s0 (bias_data + map_index bias_d (unat k))
                   else 0)),
               snd s0 @ (dst_d, unat (oidx ipd n k))
                 # (if bias_data \<noteq> 0 then [(bias_d, unat k)] else [])))))"

text \<open>The calls of one action, and an action on a store with a log.\<close>

fun action_calls :: "test_inner_product_descr_t \<Rightarrow> memory \<Rightarrow> memory \<Rightarrow> memory \<Rightarrow> memory
    \<Rightarrow> action \<Rightarrow> call list" where
  "action_calls ipd src weights bias dst (Init p) =
     (desc dst, unat (oidx ipd (fst p) (snd p)))
       # (if data_handle bias \<noteq> 0 then [(desc bias, unat (snd p))] else [])"
| "action_calls ipd src weights bias dst (Acc p t) =
     [(desc dst, unat (oidx ipd (fst p) (snd p))),
      (desc src, unat (iidx ipd (fst p) (fst t) (fst (snd t)) (snd (snd t)))),
      (desc weights, unat (widx ipd (snd p) (fst t) (fst (snd t)) (snd (snd t))))]"

definition traced_action :: "(memory_desc \<Rightarrow> nat \<Rightarrow> nat) \<Rightarrow> test_inner_product_descr_t
    \<Rightarrow> memory \<Rightarrow> memory \<Rightarrow> memory \<Rightarrow> memory
    \<Rightarrow> action \<Rightarrow> ('a :: {zero, plus, times}) store \<times> call list \<Rightarrow> 'a store \<times> call list" where
  "traced_action map_index ipd src weights bias dst a s =
     (exec_action map_index ipd src weights bias dst a (fst s),
      snd s @ action_calls ipd src weights bias dst a)"

subsection \<open>The memory descriptors of SetUp\<close>

text \<open>Modelled from the spec: two of the errors of section 7 of the specification;
  the status type of the library is not among the sources.\<close>

datatype error = UnsupportedFormat | InvalidShape

text \<open>Modelled from the spec: the rank a layout tag expects (vector, matrix, 4-D
  activation and 4-D weight layouts and their blocked variants, section 3).\<close>

fun format_rank :: "format \<Rightarrow> nat" where
  "format_rank format_x = 1"
| "format_rank format_nc = 2"
| "format_rank format_oi = 2"
| "format_rank format_nchw = 4"
| "format_rank format_oihw = 4"
| "format_rank format_nChw8c = 4"
| "format_rank format_oIhw8i = 4"

text \<open>
  Modelled from the spec: \<^verbatim>\<open>create_md\<close> is declared in \<^verbatim>\<open>mkldnn_test_common.hpp\<close>,
  which is not among the sources. Sections 4.2 and 6 of the specification:
  constructing a memory descriptor from dims, precision and format tag fails
  with \<open>UnsupportedFormat\<close> if the rank of dims does not match the rank the tag
  expects.
\<close>

definition create_md :: "uint32_t list \<Rightarrow> precision \<Rightarrow> format \<Rightarrow> error + memory_desc" where
  "create_md ds p f =
     (if length ds = format_rank f then Inr \<lparr>dims = map unat ds, prec = p, fmt = f\<rparr>
      else Inl UnsupportedFormat)"

text \<open>
  Modelled from the spec: \<^verbatim>\<open>get_number_of_elements\<close> is library code; the logical
  element count of a descriptor is the product of its dims.
\<close>

definition nelems :: "memory_desc \<Rightarrow> nat" where
  "nelems md = prod_list (dims md)"

text \<open>\<^verbatim>\<open>bool has_spatial = ipd.kh > 1 && ipd.kw > 1;\<close> (line 86)\<close>

definition has_spatial :: "test_inner_product_descr_t \<Rightarrow> bool" where
  "has_spatial ipd \<longleftrightarrow> kh ipd > 1 \<and> kw ipd > 1"

text \<open>
  The four descriptors \<^verbatim>\<open>SetUp\<close> creates (lines 95 to 104). The assertions of
  lines 88 to 93 hold for every value of the types above and are left out, and
  the precision of \<^verbatim>\<open>data_traits<float>\<close> is \<open>f32\<close>.
\<close>

definition SetUp_descs :: "inprod_test_params
    \<Rightarrow> error + (memory_desc \<times> memory_desc \<times> memory_desc \<times> memory_desc)" where
  "SetUp_descs p =
    (let ipd = test_ipd p;
         prec = f32
     in case (if has_spatial ipd
              then create_md [mb ipd, ic ipd, kh ipd, kw ipd] prec (src_format p)
              else create_md [mb ipd, ic ipd] prec (src_format p)) of
          Inl e \<Rightarrow> Inl e
        | Inr ip_src_desc \<Rightarrow>
       (case (if has_spatial ipd
              then create_md [oc ipd, ic ipd, kh ipd, kw ipd] prec (weights_format p)
              else create_md [oc ipd, ic ipd] prec (weights_format p)) of
          Inl e \<Rightarrow> Inl e
        | Inr ip_weights_desc \<Rightarrow>
       (case create_md [oc ipd] prec (bias_format p) of
          Inl e \<Rightarrow> Inl e
        | Inr ip_bias_desc \<Rightarrow>
       (case create_md [mb ipd, oc ipd] prec (dst_format p) of
          Inl e \<Rightarrow> Inl e
        | Inr ip_dst_desc \<Rightarrow> Inr (ip_src_desc, ip_weights_desc, ip_bias_desc, ip_dst_desc)))))"

section \<open>The layout mapper of the specification\<close>

text \<open>
  Modelled from the spec: the layout mapper (\<^verbatim>\<open>map_index\<close> and the blocking
  descriptors it reads) is library and test-support code that is not among the
  sources. Section 4.1 of the specification: a blocked tag splits exactly one
  axis \<open>a\<close> into an outer index \<open>index[a] / block_size\<close> and an inner index
  \<open>index[a] % block_size\<close>; the tags \<^verbatim>\<open>nChw8c\<close> and \<^verbatim>\<open>oIhw8i\<close> block axis 1 (the
  channels, resp. the input channels) by 8.
\<close>

fun blocking :: "format \<Rightarrow> (nat \<times> nat) option" where
  "blocking format_nChw8c = Some (1, 8)"
| "blocking format_oIhw8i = Some (1, 8)"
| "blocking f = None"

text \<open>Modelled from the spec: the strides of a contiguous row-major layout
  (section 4.1).\<close>

fun strides :: "nat list \<Rightarrow> nat list" where
  "strides [] = []"
| "strides (d # ds) = prod_list ds # strides ds"

text \<open>Modelled from the spec: the strided dot-product of index and strides
  (section 4.1).\<close>

definition offset :: "nat list \<Rightarrow> nat list \<Rightarrow> nat" where
  "offset ds idx = sum_list (map2 (*) idx (strides ds))"

text \<open>
  Modelled from the spec: in the physical layout the outer index takes the
  position of axis \<open>a\<close> in an otherwise contiguous layout, and the inner index
  is appended as the fastest-varying trailing axis of extent \<open>block_size\<close>. The
  extent of the outer axis is rounded up (blocked padding, section 4.2).
\<close>

definition physical_dims :: "memory_desc \<Rightarrow> nat list" where
  "physical_dims md =
     (case blocking (fmt md) of
        None \<Rightarrow> dims md
      | Some (a, b) \<Rightarrow> (dims md) [a := (dims md ! a + b - 1) div b] @ [b])"

text \<open>Modelled from the spec: the physical index of a logical index, with the
  blocked axis split into outer and inner index (section 4.1).\<close>

definition physical_index :: "memory_desc \<Rightarrow> nat list \<Rightarrow> nat list" where
  "physical_index md idx =
     (case blocking (fmt md) of
        None \<Rightarrow> idx
      | Some (a, b) \<Rightarrow> idx [a := idx ! a div b] @ [idx ! a mod b])"

text \<open>Modelled from the spec: the layout mapper of section 4.1; a zero-extent
  dimension fails with \<open>InvalidShape\<close>.\<close>

definition layout_mapper :: "memory_desc \<Rightarrow> nat list \<Rightarrow> error + nat" where
  "layout_mapper md idx =
     (if 0 \<in> set (dims md) then Inl InvalidShape
      else Inr (offset (physical_dims md) (physical_index md idx)))"

text \<open>Modelled from the spec: the physical element count a memory allocates,
  blocked padding included (section 4.2).\<close>

definition footprint :: "memory_desc \<Rightarrow> nat" where
  "footprint md = prod_list (physical_dims md)"

text \<open>Modelled from the spec: a logical index has one integer per dimension with
  \<open>0 \<le> index[d] < dims[d]\<close> (section 4.1).\<close>

definition valid_index :: "memory_desc \<Rightarrow> nat list \<Rightarrow> bool" where
  "valid_index md idx \<longleftrightarrow> list_all2 (<) idx (dims md)"

section \<open>The constraint check of the specification\<close>

text \<open>
  Modelled from the spec: \<^verbatim>\<open>reference_convolution.hpp\<close> only declares
  \<^verbatim>\<open>static status_t constraint(const convolution_desc_t &conv_d)\<close>; its body, the
  types \<^verbatim>\<open>status_t\<close> and \<^verbatim>\<open>convolution_desc_t\<close> and the construction of primitive
  descriptors are not among the sources. Sections 3, 4.3 and 6 of the
  specification: the operation descriptor, the engine, the three status values,
  and a check that succeeds only if the kind of the engine is supported and the
  channel counts are not zero. Which engine kinds are supported is a parameter.
  The engine is an argument here as in the specification; the declaration in
  the header has the operation descriptor as its only argument.
\<close>

text \<open>Modelled from the spec: the operation descriptor of a convolution
  (section 3).\<close>

record convolution_desc_t =
  minibatch :: nat
  input_channels :: nat
  output_channels :: nat
  kernel_height :: nat
  kernel_width :: nat

text \<open>Modelled from the spec: an engine is a kind and an index (section 3).\<close>

record engine =
  kind :: engine_kind
  index :: nat

text \<open>Modelled from the spec: the status values of the constraint check
  (section 6).\<close>

datatype status_t = Success | UnsupportedEngine | InvalidOperationShape

text \<open>Modelled from the spec: the implementation a primitive descriptor selects;
  the reference convolution is the one the header declares.\<close>

datatype implementation = reference_convolution

text \<open>Modelled from the spec: a primitive descriptor (section 3).\<close>

record primitive_desc =
  operation_descriptor :: convolution_desc_t
  bound_engine :: engine
  selected_implementation :: implementation

text \<open>Modelled from the spec: \<open>constraint(operation_descriptor, engine) -> Status\<close>.
  The specification does not say which status is returned when both checks
  fail; the engine is checked first here.\<close>

definition constraint :: "(engine_kind \<Rightarrow> bool) \<Rightarrow> convolution_desc_t \<Rightarrow> engine \<Rightarrow> status_t" where
  "constraint supported conv_d eng =
     (if \<not> supported (kind eng) then UnsupportedEngine
      else if input_channels conv_d = 0 \<or> output_channels conv_d = 0 then InvalidOperationShape
      else Success)"

text \<open>Modelled from the spec: a primitive descriptor is created only after the
  constraint check succeeds.\<close>

definition primitive_desc_create :: "(engine_kind \<Rightarrow> bool) \<Rightarrow> convolution_desc_t \<Rightarrow> engine
    \<Rightarrow> status_t + primitive_desc" where
  "primitive_desc_create supported conv_d eng =
     (case constraint supported conv_d eng of
        Success \<Rightarrow> Inr \<lparr>operation_descriptor = conv_d, bound_engine = eng,
                         selected_implementation = reference_convolution\<rparr>
      | st \<Rightarrow> Inl st)"

section \<open>Proofs: the loops as a schedule of actions\<close>

lemma unat_succ_lt: "(i::uint32_t) < n \<Longrightarrow> unat (i + 1) = Suc (unat i)"
proof -
  assume lt: "i < n"
  then have "unat i < unat n"
    by (simp add: word_less_nat_alt)
  moreover have "unat n < 2 ^ 32"
    using unsigned_less [of n, where ?'a = nat] by simp
  ultimately have "unat i + 1 < 2 ^ LENGTH(32)"
    by simp
  then show ?thesis
    by (simp add: unat_word_ariths)
qed

lemma for_loop_fold_from:
  "for_loop i n body s = fold body (map of_nat [unat i..<unat n]) s"
proof (induction i n body s rule: for_loop.induct)
  case (1 i n body s)
  show ?case
  proof (cases "i < n")
    case True
    then have lt: "unat i < unat n"
      by (simp add: word_less_nat_alt)
    have "[unat i..<unat n] = unat i # [unat (i + 1)..<unat n]"
      using lt unat_succ_lt [OF True] by (simp add: upt_conv_Cons)
    with True "1.IH" show ?thesis
      by (subst for_loop.simps) simp
  next
    case False
    then have "\<not> unat i < unat n"
      by (simp add: word_less_nat_alt)
    with False show ?thesis
      by (subst for_loop.simps) simp
  qed
qed

lemma for_loop_fold: "for_loop 0 n body = fold body (loop_range n)"
  by (rule ext) (simp add: for_loop_fold_from loop_range_def)

lemma fold_concat_list: "fold f (concat xss) = fold (fold f) xss"
  by (induction xss) simp_all

lemma exec_action_Acc_fun:
  "exec_action map_index ipd src weights bias dst (Acc p t) = (\<lambda>mem.
     mem (dst_addr map_index ipd dst p :=
       mem (dst_addr map_index ipd dst p)
       + mem (src_addr map_index ipd src (fst p) t)
         * mem (weights_addr map_index ipd weights (snd p) t)))"
  by (rule ext) simp

lemma compute_eq_schedule:
  "compute_ref_inner_product_fwd map_index ipd src weights bias dst
     = fold (exec_action map_index ipd src weights bias dst) (seq_schedule ipd)"
  unfolding compute_ref_inner_product_fwd_def Let_def for_loop_fold seq_schedule_def pairs_def
    triples_def pair_actions_def
  by (simp add: fold_concat_list fold_map comp_def exec_action_Acc_fun map_concat
      dst_addr_def src_addr_def weights_addr_def bias_addr_def cong del: if_weak_cong)

lemma set_loop_range: "set (loop_range n) = {i. i < n}"
proof (rule set_eqI)
  fix i :: uint32_t
  have "i \<in> set (loop_range n) \<longleftrightarrow> (\<exists>m < unat n. i = of_nat m)"
    by (auto simp: loop_range_def)
  also have "\<dots> \<longleftrightarrow> unat i < unat n"
  proof
    assume "\<exists>m < unat n. i = of_nat m"
    then obtain m where m: "m < unat n" "i = of_nat m"
      by blast
    have "unat n < 2 ^ LENGTH(32)"
      by (rule unsigned_less)
    with m have "unat i = m"
      by (simp add: unat_of_nat)
    with m show "unat i < unat n"
      by simp
  next
    assume "unat i < unat n"
    then show "\<exists>m < unat n. i = of_nat m"
      by (intro exI [of _ "unat i"]) simp
  qed
  finally show "i \<in> set (loop_range n) \<longleftrightarrow> i \<in> {i. i < n}"
    by (simp add: word_less_nat_alt)
qed

lemma unat_of_nat_below: "m < unat (n :: uint32_t) \<Longrightarrow> unat (of_nat m :: uint32_t) = m"
proof -
  assume "m < unat n"
  moreover have "unat n < 2 ^ LENGTH(32)"
    by (rule unsigned_less)
  ultimately have "m < 2 ^ LENGTH(32)"
    by (rule less_trans)
  then show ?thesis
    by (simp add: unat_of_nat)
qed

lemma distinct_loop_range: "distinct (loop_range n)"
proof -
  have "inj_on (of_nat :: nat \<Rightarrow> uint32_t) (set [0..<unat n])"
  proof (rule inj_onI)
    fix a b :: nat
    assume "a \<in> set [0..<unat n]" "b \<in> set [0..<unat n]"
    then have "a < unat n" "b < unat n"
      by simp_all
    then have "unat (of_nat a :: uint32_t) = a" "unat (of_nat b :: uint32_t) = b"
      by (simp_all only: unat_of_nat_below)
    moreover assume "(of_nat a :: uint32_t) = of_nat b"
    ultimately show "a = b"
      by metis
  qed
  then show ?thesis
    by (simp add: loop_range_def distinct_map)
qed

lemma distinct_product_concat:
  "distinct xs \<Longrightarrow> distinct ys \<Longrightarrow> distinct (concat (map (\<lambda>x. map (Pair x) ys) xs))"
  by (induction xs) (auto simp: distinct_map inj_on_def)

lemma set_pairs: "p \<in> set (pairs ipd) \<longleftrightarrow> fst p < mb ipd \<and> snd p < oc ipd"
  by (cases p) (auto simp: pairs_def set_loop_range)

lemma distinct_pairs: "distinct (pairs ipd)"
  unfolding pairs_def
  by (rule distinct_product_concat) (rule distinct_loop_range)+

lemma set_triples:
  "t \<in> set (triples ipd) \<longleftrightarrow>
     fst t < ic ipd \<and> fst (snd t) < kh ipd \<and> snd (snd t) < kw ipd"
  by (cases t) (auto simp: triples_def set_loop_range)


lemma exec_action_other:
  "a \<noteq> dst_addr map_index ipd dst (action_pair x) \<Longrightarrow>
     exec_action map_index ipd src weights bias dst x mem a = mem a"
  by (cases x) simp_all

lemma fold_exec_frame:
  "a \<notin> dst_addr map_index ipd dst ` action_pair ` set acts \<Longrightarrow>
     fold (exec_action map_index ipd src weights bias dst) acts mem a = mem a"
proof (induction acts arbitrary: mem)
  case Nil
  show ?case by simp
next
  case (Cons x acts)
  from Cons.prems have "a \<noteq> dst_addr map_index ipd dst (action_pair x)"
    and "a \<notin> dst_addr map_index ipd dst ` action_pair ` set acts"
    by auto
  then show ?case
    by (simp add: Cons.IH exec_action_other)
qed

lemma pair_fst_snd: "p \<in> set (pairs ipd) \<Longrightarrow>
  fst p \<in> set (loop_range (mb ipd)) \<and> snd p \<in> set (loop_range (oc ipd))"
  by (simp add: set_pairs set_loop_range)

lemma src_addr_read: "p \<in> set (pairs ipd) \<Longrightarrow> t \<in> set (triples ipd) \<Longrightarrow>
  src_addr map_index ipd src (fst p) t \<in> set (read_addrs map_index ipd src weights bias)"
  using pair_fst_snd [of p ipd] by (auto simp: read_addrs_def)

lemma weights_addr_read: "p \<in> set (pairs ipd) \<Longrightarrow> t \<in> set (triples ipd) \<Longrightarrow>
  weights_addr map_index ipd weights (snd p) t \<in> set (read_addrs map_index ipd src weights bias)"
  using pair_fst_snd [of p ipd] by (auto simp: read_addrs_def)

lemma bias_addr_read: "p \<in> set (pairs ipd) \<Longrightarrow> data_handle bias \<noteq> 0 \<Longrightarrow>
  bias_addr map_index bias (snd p) \<in> set (read_addrs map_index ipd src weights bias)"
  using pair_fst_snd [of p ipd] by (auto simp: read_addrs_def)

text \<open>An action sees the store only at its destination address and at read addresses.\<close>

lemma exec_action_cong:
  assumes "valid_action ipd x"
    and "mem1 (dst_addr map_index ipd dst (action_pair x))
       = mem2 (dst_addr map_index ipd dst (action_pair x))"
    and "\<And>r. r \<in> set (read_addrs map_index ipd src weights bias) \<Longrightarrow> mem1 r = mem2 r"
  shows "exec_action map_index ipd src weights bias dst x mem1
           (dst_addr map_index ipd dst (action_pair x))
       = exec_action map_index ipd src weights bias dst x mem2
           (dst_addr map_index ipd dst (action_pair x))"
proof (cases x)
  case (Init p)
  with assms show ?thesis
    by (simp add: bias_addr_read)
next
  case (Acc p t)
  with assms show ?thesis
    by (simp add: src_addr_read weights_addr_read)
qed

lemma fold_exec_read:
  assumes "list_all (valid_action ipd) acts"
    and "set (read_addrs map_index ipd src weights bias)
        \<inter> set (dst_addrs map_index ipd dst) = {}"
    and "r \<in> set (read_addrs map_index ipd src weights bias)"
  shows "fold (exec_action map_index ipd src weights bias dst) acts mem r = mem r"
proof (rule fold_exec_frame)
  have "action_pair x \<in> set (pairs ipd)" if "x \<in> set acts" for x
    using assms(1) that by (cases x) (auto simp: list_all_iff)
  then have "dst_addr map_index ipd dst ` action_pair ` set acts
      \<subseteq> set (dst_addrs map_index ipd dst)"
    by (auto simp: dst_addrs_def)
  with assms(2,3) show "r \<notin> dst_addr map_index ipd dst ` action_pair ` set acts"
    by blast
qed

lemma fold_exec_project:
  assumes valid: "list_all (valid_action ipd) acts"
    and dist: "distinct (dst_addrs map_index ipd dst)"
    and disj: "set (read_addrs map_index ipd src weights bias)
        \<inter> set (dst_addrs map_index ipd dst) = {}"
    and p: "p \<in> set (pairs ipd)"
  shows "fold (exec_action map_index ipd src weights bias dst) acts mem
           (dst_addr map_index ipd dst p)
       = fold (exec_action map_index ipd src weights bias dst)
           (filter (\<lambda>a. action_pair a = p) acts) mem (dst_addr map_index ipd dst p)"
  using valid
proof (induction acts rule: rev_induct)
  case Nil
  show ?case by simp
next
  case (snoc x acts)
  then have valid: "list_all (valid_action ipd) acts" and x: "valid_action ipd x"
    by simp_all
  note IH = snoc.IH [OF valid]
  have inj: "inj_on (dst_addr map_index ipd dst) (set (pairs ipd))"
    using dist by (simp add: dst_addrs_def distinct_map)
  show ?case
  proof (cases "action_pair x = p")
    case True
    have valid': "list_all (valid_action ipd) (filter (\<lambda>a. action_pair a = p) acts)"
      using valid by (simp add: list_all_iff)
    have "exec_action map_index ipd src weights bias dst x
            (fold (exec_action map_index ipd src weights bias dst) acts mem)
            (dst_addr map_index ipd dst (action_pair x))
        = exec_action map_index ipd src weights bias dst x
            (fold (exec_action map_index ipd src weights bias dst)
               (filter (\<lambda>a. action_pair a = p) acts) mem)
            (dst_addr map_index ipd dst (action_pair x))"
    proof (rule exec_action_cong [OF x])
      show "fold (exec_action map_index ipd src weights bias dst) acts mem
              (dst_addr map_index ipd dst (action_pair x))
          = fold (exec_action map_index ipd src weights bias dst)
              (filter (\<lambda>a. action_pair a = p) acts) mem
              (dst_addr map_index ipd dst (action_pair x))"
        using IH True by simp
    next
      fix r
      assume r: "r \<in> set (read_addrs map_index ipd src weights bias)"
      show "fold (exec_action map_index ipd src weights bias dst) acts mem r
          = fold (exec_action map_index ipd src weights bias dst)
              (filter (\<lambda>a. action_pair a = p) acts) mem r"
        by (simp add: fold_exec_read [OF valid disj r] fold_exec_read [OF valid' disj r])
    qed
    with True show ?thesis
      by simp
  next
    case False
    have "action_pair x \<in> set (pairs ipd)"
      using x by (cases x) simp_all
    with False p inj have "dst_addr map_index ipd dst p
        \<noteq> dst_addr map_index ipd dst (action_pair x)"
      by (auto dest: inj_onD)
    with False IH show ?thesis
      by (simp add: exec_action_other)
  qed
qed


lemma fold_acc_value:
  assumes "\<And>t. t \<in> set ts \<Longrightarrow>
      src_addr map_index ipd src (fst p) t \<noteq> dst_addr map_index ipd dst p
      \<and> weights_addr map_index ipd weights (snd p) t \<noteq> dst_addr map_index ipd dst p"
  shows "fold (exec_action map_index ipd src weights bias dst) (map (Acc p) ts) mem
       = mem (dst_addr map_index ipd dst p :=
           foldl (\<lambda>acc t. acc + mem (src_addr map_index ipd src (fst p) t)
                               * mem (weights_addr map_index ipd weights (snd p) t))
             (mem (dst_addr map_index ipd dst p)) ts)"
  using assms
proof (induction ts arbitrary: mem)
  case Nil
  show ?case by simp
next
  case (Cons t ts)
  let ?d = "dst_addr map_index ipd dst p"
  let ?mem' = "mem (?d := mem ?d + mem (src_addr map_index ipd src (fst p) t)
                               * mem (weights_addr map_index ipd weights (snd p) t))"
  have reads: "?mem' (src_addr map_index ipd src (fst p) u) = mem (src_addr map_index ipd src (fst p) u)"
    "?mem' (weights_addr map_index ipd weights (snd p) u)
       = mem (weights_addr map_index ipd weights (snd p) u)"
    if "u \<in> set ts" for u
    using Cons.prems [of u] that by simp_all
  have "foldl (\<lambda>acc u. acc + ?mem' (src_addr map_index ipd src (fst p) u)
                               * ?mem' (weights_addr map_index ipd weights (snd p) u)) a ts
      = foldl (\<lambda>acc u. acc + mem (src_addr map_index ipd src (fst p) u)
                               * mem (weights_addr map_index ipd weights (snd p) u)) a ts" for a
    by (rule foldl_cong) (simp_all only: reads)
  moreover have "fold (exec_action map_index ipd src weights bias dst) (map (Acc p) ts) ?mem'
       = ?mem' (?d :=
           foldl (\<lambda>acc t. acc + ?mem' (src_addr map_index ipd src (fst p) t)
                               * ?mem' (weights_addr map_index ipd weights (snd p) t))
             (?mem' ?d) ts)"
    by (rule Cons.IH) (simp add: Cons.prems)
  ultimately show ?case
    by simp
qed

lemma pair_actions_value:
  assumes p: "p \<in> set (pairs ipd)"
    and disj: "set (read_addrs map_index ipd src weights bias)
        \<inter> set (dst_addrs map_index ipd dst) = {}"
  shows "fold (exec_action map_index ipd src weights bias dst) (pair_actions ipd p) mem
       = mem (dst_addr map_index ipd dst p := ref_value map_index ipd src weights bias mem p)"
proof -
  let ?d = "dst_addr map_index ipd dst p"
  have d: "?d \<in> set (dst_addrs map_index ipd dst)"
    using p by (simp add: dst_addrs_def)
  have not_d: "r \<noteq> ?d" if "r \<in> set (read_addrs map_index ipd src weights bias)" for r
    using that d disj by blast
  have acc: "src_addr map_index ipd src (fst p) t \<noteq> ?d
      \<and> weights_addr map_index ipd weights (snd p) t \<noteq> ?d" if "t \<in> set (triples ipd)" for t
    using that p by (simp add: not_d src_addr_read weights_addr_read)
  let ?b = "if data_handle bias \<noteq> 0 then mem (bias_addr map_index bias (snd p)) else 0"
  let ?mem0 = "mem (?d := ?b)"
  have "foldl (\<lambda>acc t. acc + ?mem0 (src_addr map_index ipd src (fst p) t)
                               * ?mem0 (weights_addr map_index ipd weights (snd p) t)) ?b (triples ipd)
      = foldl (\<lambda>acc t. acc + mem (src_addr map_index ipd src (fst p) t)
                               * mem (weights_addr map_index ipd weights (snd p) t)) ?b (triples ipd)"
    by (rule foldl_cong) (simp_all add: acc)
  then show ?thesis
    by (simp add: pair_actions_def ref_value_def fold_acc_value [OF acc])
qed

lemma filter_pair_actions:
  "filter (\<lambda>a. action_pair a = p) (pair_actions ipd q) = (if p = q then pair_actions ipd q else [])"
  by (auto simp: pair_actions_def filter_map comp_def)

lemma filter_concat_pair_actions:
  "distinct ps \<Longrightarrow> filter (\<lambda>a. action_pair a = p) (concat (map (pair_actions ipd) ps))
     = (if p \<in> set ps then pair_actions ipd p else [])"
  by (induction ps) (auto simp: filter_pair_actions)

lemma filter_seq_schedule:
  "p \<in> set (pairs ipd) \<Longrightarrow>
     filter (\<lambda>a. action_pair a = p) (seq_schedule ipd) = pair_actions ipd p"
  by (simp add: seq_schedule_def filter_concat_pair_actions distinct_pairs)

lemma valid_pair_actions: "p \<in> set (pairs ipd) \<Longrightarrow> list_all (valid_action ipd) (pair_actions ipd p)"
  by (simp add: pair_actions_def list_all_iff)

lemma valid_seq_schedule: "list_all (valid_action ipd) (seq_schedule ipd)"
  using valid_pair_actions by (auto simp: seq_schedule_def list_all_iff)

lemma schedule_valid:
  assumes "schedule ipd acts"
  shows "list_all (valid_action ipd) acts"
  unfolding list_all_iff
proof
  fix a
  assume a: "a \<in> set acts"
  with assms have p: "action_pair a \<in> set (pairs ipd)"
    by (simp add: schedule_def list_all_iff)
  with assms have "filter (\<lambda>b. action_pair b = action_pair a) acts
      = pair_actions ipd (action_pair a)"
    by (simp add: schedule_def list_all_iff)
  moreover from a have "a \<in> set (filter (\<lambda>b. action_pair b = action_pair a) acts)"
    by simp
  ultimately have "a \<in> set (pair_actions ipd (action_pair a))"
    by simp
  with valid_pair_actions [OF p] show "valid_action ipd a"
    by (simp add: list_all_iff)
qed

lemma valid_action_pair: "valid_action ipd a \<Longrightarrow> action_pair a \<in> set (pairs ipd)"
  by (cases a) simp_all

lemma schedule_result:
  assumes sch: "schedule ipd acts"
    and dist: "distinct (dst_addrs map_index ipd dst)"
    and disj: "set (read_addrs map_index ipd src weights bias)
        \<inter> set (dst_addrs map_index ipd dst) = {}"
  shows "fold (exec_action map_index ipd src weights bias dst) acts mem a
       = (if a \<in> set (dst_addrs map_index ipd dst)
          then ref_value map_index ipd src weights bias mem
                 (the_inv_into (set (pairs ipd)) (dst_addr map_index ipd dst) a)
          else mem a)"
proof (cases "a \<in> set (dst_addrs map_index ipd dst)")
  case True
  then obtain p where p: "p \<in> set (pairs ipd)" and a: "a = dst_addr map_index ipd dst p"
    by (auto simp: dst_addrs_def)
  have inj: "inj_on (dst_addr map_index ipd dst) (set (pairs ipd))"
    using dist by (simp add: dst_addrs_def distinct_map)
  have inv: "the_inv_into (set (pairs ipd)) (dst_addr map_index ipd dst) a = p"
    unfolding a using inj p by (rule the_inv_into_f_f)
  have "filter (\<lambda>b. action_pair b = p) acts = pair_actions ipd p"
    using sch p by (simp add: schedule_def list_all_iff)
  then have "fold (exec_action map_index ipd src weights bias dst) acts mem a
      = fold (exec_action map_index ipd src weights bias dst) (pair_actions ipd p) mem a"
    unfolding a using fold_exec_project [OF schedule_valid [OF sch] dist disj p] by simp
  also have "\<dots> = ref_value map_index ipd src weights bias mem p"
    by (simp add: pair_actions_value [OF p disj] a)
  finally show ?thesis
    using True inv by simp
next
  case False
  have "action_pair ` set acts \<subseteq> set (pairs ipd)"
    using schedule_valid [OF sch] by (auto simp: list_all_iff valid_action_pair)
  with False have "a \<notin> dst_addr map_index ipd dst ` action_pair ` set acts"
    by (auto simp: dst_addrs_def)
  with False show ?thesis
    by (simp add: fold_exec_frame)
qed

lemma schedule_seq_schedule: "schedule ipd (seq_schedule ipd)"
  using valid_seq_schedule [of ipd]
  by (auto simp: schedule_def list_all_iff filter_seq_schedule valid_action_pair)


lemma compute_value:
  assumes dist: "distinct (dst_addrs map_index ipd dst)"
    and disj: "set (read_addrs map_index ipd src weights bias)
        \<inter> set (dst_addrs map_index ipd dst) = {}"
    and p: "p \<in> set (pairs ipd)"
  shows "compute_ref_inner_product_fwd map_index ipd src weights bias dst mem
           (dst_addr map_index ipd dst p)
       = ref_value map_index ipd src weights bias mem p"
proof -
  have inj: "inj_on (dst_addr map_index ipd dst) (set (pairs ipd))"
    using dist by (simp add: dst_addrs_def distinct_map)
  have "the_inv_into (set (pairs ipd)) (dst_addr map_index ipd dst) (dst_addr map_index ipd dst p) = p"
    using inj p by (rule the_inv_into_f_f)
  moreover have "dst_addr map_index ipd dst p \<in> set (dst_addrs map_index ipd dst)"
    using p by (simp add: dst_addrs_def)
  ultimately show ?thesis
    by (simp add: compute_eq_schedule schedule_result [OF schedule_seq_schedule dist disj])
qed

lemma ref_value_unfold:
  "ref_value map_index ipd src weights bias mem (n, k)
     = foldl (\<lambda>acc (c, h, w).
          acc + mem (data_handle src + map_index (desc src) (unat (iidx ipd n c h w)))
                * mem (data_handle weights + map_index (desc weights) (unat (widx ipd k c h w))))
        (if data_handle bias \<noteq> 0 then mem (data_handle bias + map_index (desc bias) (unat k))
         else 0)
        (triples ipd)"
  by (simp add: ref_value_def src_addr_def weights_addr_def bias_addr_def case_prod_unfold
      cong del: if_weak_cong)

subsection \<open>When the destination addresses are distinct\<close>

text \<open>The destination addresses of the \<open>(n, oc)\<close> pairs are pairwise distinct when \<open>mb * oc\<close> fits 32
  bits and \<^verbatim>\<open>map_index\<close> is injective on the logical indices of the destination.\<close>

lemma unat_of_nat_small: "N < 2 ^ 32 \<Longrightarrow> unat (of_nat N :: uint32_t) = N"
  by (simp add: unat_of_nat)

lemma oidx_of_nat: "oidx ipd n k = of_nat (unat n * unat (oc ipd) + unat k)"
  by (simp add: oidx_def)

lemma pair_index_less:
  fixes n k M K :: nat
  assumes "n < M" "k < K"
  shows "n * K + k < M * K"
proof -
  have "n * K + k < n * K + K"
    using assms(2) by simp
  also have "\<dots> = Suc n * K"
    by simp
  also have "\<dots> \<le> M * K"
    using assms(1) by (intro mult_le_mono1) simp
  finally show ?thesis .
qed

lemma unat_oidx:
  assumes "n < mb ipd" "k < oc ipd" "unat (mb ipd) * unat (oc ipd) \<le> 2 ^ 32"
  shows "unat (oidx ipd n k) = unat n * unat (oc ipd) + unat k"
    and "unat n * unat (oc ipd) + unat k < unat (mb ipd) * unat (oc ipd)"
proof -
  from assms(1,2) have "unat n < unat (mb ipd)" "unat k < unat (oc ipd)"
    by (simp_all add: word_less_nat_alt)
  then show lt: "unat n * unat (oc ipd) + unat k < unat (mb ipd) * unat (oc ipd)"
    by (rule pair_index_less)
  with assms(3) have "unat n * unat (oc ipd) + unat k < 2 ^ 32"
    by simp
  then show "unat (oidx ipd n k) = unat n * unat (oc ipd) + unat k"
    unfolding oidx_of_nat by (rule unat_of_nat_small)
qed

lemma distinct_dst_addrs:
  assumes small: "unat (mb ipd) * unat (oc ipd) \<le> 2 ^ 32"
    and inj: "inj_on (map_index (desc dst)) {0..<unat (mb ipd) * unat (oc ipd)}"
  shows "distinct (dst_addrs map_index ipd dst)"
proof -
  have "inj_on (dst_addr map_index ipd dst) (set (pairs ipd))"
  proof (rule inj_onI)
    fix p q
    assume p: "p \<in> set (pairs ipd)" and q: "q \<in> set (pairs ipd)"
      and eq: "dst_addr map_index ipd dst p = dst_addr map_index ipd dst q"
    from p have lp: "fst p < mb ipd" "snd p < oc ipd"
      by (simp_all add: set_pairs)
    from q have lq: "fst q < mb ipd" "snd q < oc ipd"
      by (simp_all add: set_pairs)
    note up = unat_oidx [OF lp small] and uq = unat_oidx [OF lq small]
    from eq have "map_index (desc dst) (unat (oidx ipd (fst p) (snd p)))
        = map_index (desc dst) (unat (oidx ipd (fst q) (snd q)))"
      by (simp add: dst_addr_def)
    with inj up uq have e: "unat (fst p) * unat (oc ipd) + unat (snd p)
        = unat (fst q) * unat (oc ipd) + unat (snd q)"
      by (auto dest: inj_onD)
    from lp(2) lq(2) have k: "unat (snd p) < unat (oc ipd)" "unat (snd q) < unat (oc ipd)"
      by (simp_all add: word_less_nat_alt)
    have "(unat (fst p) * unat (oc ipd) + unat (snd p)) div unat (oc ipd) = unat (fst p)"
      "(unat (fst q) * unat (oc ipd) + unat (snd q)) div unat (oc ipd) = unat (fst q)"
      using k by simp_all
    with e have f: "unat (fst p) = unat (fst q)"
      by simp
    with e have "unat (snd p) = unat (snd q)"
      by simp
    with f show "p = q"
      by (simp add: prod_eq_iff word_unat_eq_iff)
  qed
  then show ?thesis
    by (simp add: dst_addrs_def distinct_map distinct_pairs)
qed

subsection \<open>The value of every output element\<close>

text \<open>
  Claim C1. Let \<open>mb * oc\<close> fit 32 bits, let \<^verbatim>\<open>map_index\<close> be injective on the
  logical indices \<open>0 .. mb * oc - 1\<close> of the destination descriptor, and let no
  source, weights or bias address that is read be a destination address. Then
  after \<^verbatim>\<open>compute_ref_inner_product_fwd\<close> the destination element with the logical
  index \<open>n * oc_count + oc\<close>, for every \<open>n < mb\<close> and \<open>oc < oc_count\<close>, holds the bias
  element of \<open>oc\<close> (zero when the bias pointer is null) to which the products of
  the source element \<open>n * ic * kh * kw + c * kh * kw + h * kw + w\<close> and the weights
  element \<open>oc * ic * kh * kw + c * kh * kw + h * kw + w\<close> (32-bit arithmetic, as
  in the code) have been added one by one, over all \<open>(c, h, w)\<close> in loop order.
  Every element is addressed as data pointer plus \<^verbatim>\<open>map_index\<close> of the descriptor
  of its own memory. The sum is written as a left fold, since no law of the
  element arithmetic is assumed. The witness is the element \<open>n = 1\<close>, \<open>oc = 2\<close> of
  the descriptor \<open>mb = 2, ic = 2, oc = 3, kh = 2, kw = 3\<close>.
\<close>

theorem ref_inner_product_value:
  assumes "unat (mb ipd) * unat (oc ipd) \<le> 2 ^ 32"
    and "inj_on (map_index (desc dst)) {0..<unat (mb ipd) * unat (oc ipd)}"
    and "set (read_addrs map_index ipd src weights bias) \<inter> set (dst_addrs map_index ipd dst) = {}"
    and "n < mb ipd" and "k < oc ipd"
  shows "compute_ref_inner_product_fwd map_index ipd src weights bias dst mem
           (data_handle dst + map_index (desc dst) (unat n * unat (oc ipd) + unat k))
       = foldl (\<lambda>acc (c, h, w).
            acc + mem (data_handle src + map_index (desc src)
                         (unat (n * ic ipd * kh ipd * kw ipd + c * kh ipd * kw ipd + h * kw ipd + w)))
                  * mem (data_handle weights + map_index (desc weights)
                         (unat (k * ic ipd * kh ipd * kw ipd + c * kh ipd * kw ipd + h * kw ipd + w))))
          (if data_handle bias \<noteq> 0 then mem (data_handle bias + map_index (desc bias) (unat k))
           else 0)
          (triples ipd)"
proof -
  have dist: "distinct (dst_addrs map_index ipd dst)"
    using assms(1,2) by (rule distinct_dst_addrs)
  from assms(4,5) have p: "(n, k) \<in> set (pairs ipd)"
    by (simp add: set_pairs)
  have "dst_addr map_index ipd dst (n, k)
      = data_handle dst + map_index (desc dst) (unat n * unat (oc ipd) + unat k)"
    by (simp add: dst_addr_def unat_oidx(1) [OF assms(4,5,1)])
  with compute_value [OF dist assms(3) p, of mem] show ?thesis
    by (simp add: ref_value_unfold iidx_def widx_def)
qed

theorem ref_inner_product_value_witness:
  "compute_ref_inner_product_fwd (\<lambda>md i. i) \<lparr>mb = 2, ic = 2, oc = 3, kh = 2, kw = 3\<rparr>
     \<lparr>data_handle = 100, desc = \<lparr>dims = [2, 2, 2, 3], prec = f32, fmt = format_nchw\<rparr>\<rparr>
     \<lparr>data_handle = 200, desc = \<lparr>dims = [3, 2, 2, 3], prec = f32, fmt = format_oihw\<rparr>\<rparr>
     \<lparr>data_handle = 300, desc = \<lparr>dims = [3], prec = f32, fmt = format_x\<rparr>\<rparr>
     \<lparr>data_handle = 400, desc = \<lparr>dims = [2, 3], prec = f32, fmt = format_nc\<rparr>\<rparr>
     (\<lambda>a. int a) 405
   = 324040"
  using ref_inner_product_value [of "\<lparr>mb = 2, ic = 2, oc = 3, kh = 2, kw = 3\<rparr>" "\<lambda>md i. i"
     "\<lparr>data_handle = 400, desc = \<lparr>dims = [2, 3], prec = f32, fmt = format_nc\<rparr>\<rparr>"
     "\<lparr>data_handle = 100, desc = \<lparr>dims = [2, 2, 2, 3], prec = f32, fmt = format_nchw\<rparr>\<rparr>"
     "\<lparr>data_handle = 200, desc = \<lparr>dims = [3, 2, 2, 3], prec = f32, fmt = format_oihw\<rparr>\<rparr>"
     "\<lparr>data_handle = 300, desc = \<lparr>dims = [3], prec = f32, fmt = format_x\<rparr>\<rparr>"
     1 2 "\<lambda>a. int a"]
  by (simp add: dst_addrs_def read_addrs_def pairs_def triples_def loop_range_def upt_conv_Cons
      dst_addr_def src_addr_def weights_addr_def bias_addr_def oidx_def iidx_def widx_def)

text \<open>For an element arithmetic that is a commutative semiring the fold is the
  bias plus the sum of the products.\<close>

lemma foldl_plus_sum_list:
  fixes b :: "'a :: comm_monoid_add"
  shows "foldl (\<lambda>acc t. acc + f t) b ts = b + sum_list (map f ts)"
  by (induction ts arbitrary: b) (simp_all add: add.assoc)

lemma ref_inner_product_value_sum:
  fixes mem :: "('a :: comm_semiring_0) store"
  assumes "distinct (dst_addrs map_index ipd dst)"
    and "set (read_addrs map_index ipd src weights bias) \<inter> set (dst_addrs map_index ipd dst) = {}"
    and "n < mb ipd" and "k < oc ipd"
  shows "compute_ref_inner_product_fwd map_index ipd src weights bias dst mem
           (data_handle dst + map_index (desc dst) (unat (n * oc ipd + k)))
       = (if data_handle bias \<noteq> 0 then mem (data_handle bias + map_index (desc bias) (unat k))
          else 0)
         + (\<Sum>(c, h, w) \<leftarrow> triples ipd.
              mem (data_handle src + map_index (desc src) (unat (iidx ipd n c h w)))
              * mem (data_handle weights + map_index (desc weights) (unat (widx ipd k c h w))))"
proof -
  from assms(3,4) have "(n, k) \<in> set (pairs ipd)"
    by (simp add: set_pairs)
  from compute_value [OF assms(1,2) this, of mem] show ?thesis
    by (simp add: dst_addr_def oidx_def ref_value_unfold foldl_plus_sum_list case_prod_unfold)
qed

subsection \<open>Any schedule of the parallel loop gives the sequential result\<close>



subsection \<open>Only destination addresses are written\<close>

text \<open>
  Claim C7. \<^verbatim>\<open>compute_ref_inner_product_fwd\<close> leaves every address unchanged that
  is not the destination address of an \<open>(n, oc)\<close> pair. The source, weights and
  bias elements therefore keep their contents whenever their buffers do not
  overlap the destination elements.
\<close>

theorem inputs_not_written:
  assumes "a \<notin> set (dst_addrs map_index ipd dst)"
  shows "compute_ref_inner_product_fwd map_index ipd src weights bias dst mem a = mem a"
proof -
  have "action_pair ` set (seq_schedule ipd) \<subseteq> set (pairs ipd)"
    using valid_seq_schedule [of ipd] by (auto simp: list_all_iff valid_action_pair)
  with assms have "a \<notin> dst_addr map_index ipd dst ` action_pair ` set (seq_schedule ipd)"
    by (auto simp: dst_addrs_def)
  then show ?thesis
    by (simp add: compute_eq_schedule fold_exec_frame)
qed

theorem inputs_not_written_witness:
  "compute_ref_inner_product_fwd (\<lambda>md i. i) \<lparr>mb = 1, ic = 1, oc = 2, kh = 1, kw = 1\<rparr>
     \<lparr>data_handle = 100, desc = \<lparr>dims = [1, 1], prec = f32, fmt = format_nc\<rparr>\<rparr>
     \<lparr>data_handle = 200, desc = \<lparr>dims = [2, 1], prec = f32, fmt = format_oi\<rparr>\<rparr>
     \<lparr>data_handle = 300, desc = \<lparr>dims = [2], prec = f32, fmt = format_x\<rparr>\<rparr>
     \<lparr>data_handle = 400, desc = \<lparr>dims = [1, 2], prec = f32, fmt = format_nc\<rparr>\<rparr>
     (\<lambda>a. int a) 201 = 201"
  using inputs_not_written [of 201 "\<lambda>md i. i" "\<lparr>mb = 1, ic = 1, oc = 2, kh = 1, kw = 1\<rparr>"
     "\<lparr>data_handle = 400, desc = \<lparr>dims = [1, 2], prec = f32, fmt = format_nc\<rparr>\<rparr>"
     "\<lparr>data_handle = 100, desc = \<lparr>dims = [1, 1], prec = f32, fmt = format_nc\<rparr>\<rparr>"
     "\<lparr>data_handle = 200, desc = \<lparr>dims = [2, 1], prec = f32, fmt = format_oi\<rparr>\<rparr>"
     "\<lparr>data_handle = 300, desc = \<lparr>dims = [2], prec = f32, fmt = format_x\<rparr>\<rparr>"
     "\<lambda>a. int a"]
  by (simp add: dst_addrs_def pairs_def loop_range_def upt_conv_Cons dst_addr_def oidx_def)

subsection \<open>The initial destination contents do not matter\<close>





subsection \<open>No spatial extent: a matrix multiply\<close>

lemma loop_range_1: "loop_range 1 = [0]"
  by (simp add: loop_range_def)

lemma triples_no_spatial:
  "kh ipd = 1 \<Longrightarrow> kw ipd = 1 \<Longrightarrow> triples ipd = map (\<lambda>c. (c, 0, 0)) (loop_range (ic ipd))"
  by (simp add: triples_def loop_range_1 map_concat comp_def)

text \<open>
  Claim C3. When both kernel extents are 1, every destination element holds the
  bias element (or zero) plus the products \<open>src[n * ic + c] * weights[oc * ic + c]\<close>
  over the input channels \<open>c\<close> in order: the product of the \<open>[mb, ic]\<close> matrix with
  the transposed \<open>[oc, ic]\<close> matrix, plus bias. The witness is the descriptor
  \<open>mb = 2, ic = 2, oc = 4, kh = kw = 1\<close> of the test.
\<close>

theorem no_spatial_matrix_multiply:
  assumes "kh ipd = 1" and "kw ipd = 1"
    and "distinct (dst_addrs map_index ipd dst)"
    and "set (read_addrs map_index ipd src weights bias) \<inter> set (dst_addrs map_index ipd dst) = {}"
    and "n < mb ipd" and "k < oc ipd"
  shows "compute_ref_inner_product_fwd map_index ipd src weights bias dst mem
           (data_handle dst + map_index (desc dst) (unat (n * oc ipd + k)))
       = foldl (\<lambda>acc c.
            acc + mem (data_handle src + map_index (desc src) (unat (n * ic ipd + c)))
                  * mem (data_handle weights + map_index (desc weights) (unat (k * ic ipd + c))))
          (if data_handle bias \<noteq> 0 then mem (data_handle bias + map_index (desc bias) (unat k))
           else 0)
          (loop_range (ic ipd))"
proof -
  from assms(5,6) have "(n, k) \<in> set (pairs ipd)"
    by (simp add: set_pairs)
  from compute_value [OF assms(3,4) this, of mem] show ?thesis
    by (simp add: dst_addr_def oidx_def ref_value_unfold triples_no_spatial assms(1,2)
        foldl_map iidx_def widx_def)
qed

theorem no_spatial_matrix_multiply_witness:
  "compute_ref_inner_product_fwd (\<lambda>md i. i) \<lparr>mb = 2, ic = 2, oc = 4, kh = 1, kw = 1\<rparr>
     \<lparr>data_handle = 100, desc = \<lparr>dims = [2, 2], prec = f32, fmt = format_nc\<rparr>\<rparr>
     \<lparr>data_handle = 200, desc = \<lparr>dims = [4, 2], prec = f32, fmt = format_oi\<rparr>\<rparr>
     \<lparr>data_handle = 300, desc = \<lparr>dims = [4], prec = f32, fmt = format_x\<rparr>\<rparr>
     \<lparr>data_handle = 400, desc = \<lparr>dims = [2, 4], prec = f32, fmt = format_nc\<rparr>\<rparr>
     (\<lambda>a. int a) 407
   = 303 + 102 * 206 + 103 * 207"
  using no_spatial_matrix_multiply [of "\<lparr>mb = 2, ic = 2, oc = 4, kh = 1, kw = 1\<rparr>" "\<lambda>md i. i"
     "\<lparr>data_handle = 400, desc = \<lparr>dims = [2, 4], prec = f32, fmt = format_nc\<rparr>\<rparr>"
     "\<lparr>data_handle = 100, desc = \<lparr>dims = [2, 2], prec = f32, fmt = format_nc\<rparr>\<rparr>"
     "\<lparr>data_handle = 200, desc = \<lparr>dims = [4, 2], prec = f32, fmt = format_oi\<rparr>\<rparr>"
     "\<lparr>data_handle = 300, desc = \<lparr>dims = [4], prec = f32, fmt = format_x\<rparr>\<rparr>"
     1 3 "\<lambda>a. int a"]
  by (simp add: dst_addrs_def read_addrs_def pairs_def triples_def loop_range_def upt_conv_Cons
      dst_addr_def src_addr_def weights_addr_def bias_addr_def oidx_def iidx_def widx_def)

subsection \<open>The layout does not change the result\<close>




section \<open>Proofs: the calls of map_index and the descriptors of SetUp\<close>

lemma traced_action_fun:
  "traced_action map_index ipd src weights bias dst (Acc p t) = (\<lambda>s.
     ((fst s) (dst_addr map_index ipd dst p :=
       fst s (dst_addr map_index ipd dst p)
       + fst s (src_addr map_index ipd src (fst p) t)
         * fst s (weights_addr map_index ipd weights (snd p) t)),
     snd s @ [(desc dst, unat (oidx ipd (fst p) (snd p))),
      (desc src, unat (iidx ipd (fst p) (fst t) (fst (snd t)) (snd (snd t)))),
      (desc weights, unat (widx ipd (snd p) (fst t) (fst (snd t)) (snd (snd t))))]))"
  by (rule ext) (simp add: traced_action_def)

lemma traced_eq_schedule:
  "traced_compute_ref_inner_product_fwd map_index ipd src weights bias dst
     = fold (traced_action map_index ipd src weights bias dst) (seq_schedule ipd)"
  unfolding traced_compute_ref_inner_product_fwd_def Let_def for_loop_fold seq_schedule_def pairs_def
    triples_def pair_actions_def
  by (simp add: fold_concat_list fold_map comp_def traced_action_fun map_concat
      traced_action_def
      dst_addr_def src_addr_def weights_addr_def bias_addr_def cong del: if_weak_cong)

lemma fold_traced_action:
  "fold (traced_action map_index ipd src weights bias dst) acts s
     = (fold (exec_action map_index ipd src weights bias dst) acts (fst s),
        snd s @ concat (map (action_calls ipd src weights bias dst) acts))"
  by (induction acts arbitrary: s) (simp_all add: traced_action_def)

lemma traced_erasure:
  "fst (traced_compute_ref_inner_product_fwd map_index ipd src weights bias dst (mem, log))
     = compute_ref_inner_product_fwd map_index ipd src weights bias dst mem"
  by (simp add: traced_eq_schedule compute_eq_schedule fold_traced_action)

lemma traced_calls:
  "snd (traced_compute_ref_inner_product_fwd map_index ipd src weights bias dst (mem, log))
     = log @ concat (map (action_calls ipd src weights bias dst) (seq_schedule ipd))"
  by (simp add: traced_eq_schedule fold_traced_action)

lemma src_call_traced:
  assumes "n < mb ipd" "k < oc ipd" "c < ic ipd" "h < kh ipd" "w < kw ipd"
  shows "(desc src, unat (iidx ipd n c h w))
     \<in> set (snd (traced_compute_ref_inner_product_fwd map_index ipd src weights bias dst (mem, [])))"
proof -
  have "(n, k) \<in> set (pairs ipd)" "(c, h, w) \<in> set (triples ipd)"
    using assms by (simp_all add: set_pairs set_triples)
  then have "Acc (n, k) (c, h, w) \<in> set (seq_schedule ipd)"
    by (auto simp: seq_schedule_def pair_actions_def)
  moreover have "(desc src, unat (iidx ipd n c h w))
      \<in> set (action_calls ipd src weights bias dst (Acc (n, k) (c, h, w)))"
    by simp
  ultimately show ?thesis
    unfolding traced_calls by (simp del: action_calls.simps) blast
qed

lemma iidx_of_nat:
  "iidx ipd n c h w = of_nat (unat n * unat (ic ipd) * unat (kh ipd) * unat (kw ipd)
     + unat c * unat (kh ipd) * unat (kw ipd) + unat h * unat (kw ipd) + unat w)"
  by (simp add: iidx_def)

lemma unat_iidx:
  assumes "unat n * unat (ic ipd) * unat (kh ipd) * unat (kw ipd)
     + unat c * unat (kh ipd) * unat (kw ipd) + unat h * unat (kw ipd) + unat w < 2 ^ 32"
  shows "unat (iidx ipd n c h w) = unat n * unat (ic ipd) * unat (kh ipd) * unat (kw ipd)
     + unat c * unat (kh ipd) * unat (kw ipd) + unat h * unat (kw ipd) + unat w"
  unfolding iidx_of_nat using assms by (rule unat_of_nat_small)

lemma last_index_arith:
  fixes M I H W :: nat
  assumes "0 < M" "0 < I" "0 < H" "0 < W"
  shows "(M - 1) * I * H * W + (I - 1) * H * W + (H - 1) * W + (W - 1) = M * I * H * W - 1"
proof -
  from assms obtain m i h w where "M = Suc m" "I = Suc i" "H = Suc h" "W = Suc w"
    by (metis Suc_pred)
  then show ?thesis
    by (simp add: algebra_simps)
qed

lemma unat_pred: "0 < (x :: uint32_t) \<Longrightarrow> unat (x - 1) = unat x - 1"
  by (simp add: unat_minus_one word_gt_0)

lemma pred_less: "0 < (x :: uint32_t) \<Longrightarrow> x - 1 < x"
  by (simp add: word_gt_0 word_less_nat_alt unat_minus_one unat_gt_0)

lemma unat_last_iidx:
  assumes pos: "0 < mb ipd" "0 < ic ipd" "0 < kh ipd" "0 < kw ipd"
    and small: "unat (mb ipd) * unat (ic ipd) * unat (kh ipd) * unat (kw ipd) < 2 ^ 32"
  shows "unat (iidx ipd (mb ipd - 1) (ic ipd - 1) (kh ipd - 1) (kw ipd - 1))
     = unat (mb ipd) * unat (ic ipd) * unat (kh ipd) * unat (kw ipd) - 1"
proof -
  have upos: "0 < unat (mb ipd)" "0 < unat (ic ipd)" "0 < unat (kh ipd)" "0 < unat (kw ipd)"
    using pos by (simp_all add: unat_gt_0 word_gt_0)
  have eq: "unat (mb ipd - 1) * unat (ic ipd) * unat (kh ipd) * unat (kw ipd)
     + unat (ic ipd - 1) * unat (kh ipd) * unat (kw ipd) + unat (kh ipd - 1) * unat (kw ipd)
     + unat (kw ipd - 1)
     = unat (mb ipd) * unat (ic ipd) * unat (kh ipd) * unat (kw ipd) - 1"
    unfolding unat_pred [OF pos(1)] unat_pred [OF pos(2)] unat_pred [OF pos(3)] unat_pred [OF pos(4)]
    using upos by (rule last_index_arith)
  with small have "unat (mb ipd - 1) * unat (ic ipd) * unat (kh ipd) * unat (kw ipd)
     + unat (ic ipd - 1) * unat (kh ipd) * unat (kw ipd) + unat (kh ipd - 1) * unat (kw ipd)
     + unat (kw ipd - 1) < 2 ^ 32"
    by simp
  from unat_iidx [OF this] eq show ?thesis
    by simp
qed

lemma SetUp_descs_dims:
  assumes "SetUp_descs p = Inr (src_d, weights_d, bias_d, dst_d)"
  shows "dims src_d = (if has_spatial (test_ipd p)
           then [unat (mb (test_ipd p)), unat (ic (test_ipd p)),
                 unat (kh (test_ipd p)), unat (kw (test_ipd p))]
           else [unat (mb (test_ipd p)), unat (ic (test_ipd p))])"
    and "dims weights_d = (if has_spatial (test_ipd p)
           then [unat (oc (test_ipd p)), unat (ic (test_ipd p)),
                 unat (kh (test_ipd p)), unat (kw (test_ipd p))]
           else [unat (oc (test_ipd p)), unat (ic (test_ipd p))])"
  using assms
  by (auto simp: SetUp_descs_def create_md_def Let_def split: if_splits sum.splits)

text \<open>
  Claim C9. \<^verbatim>\<open>SetUp\<close> takes a descriptor as spatial exactly when \<open>kh > 1\<close> and
  \<open>kw > 1\<close>, and then creates source and weights descriptors of \<open>mb*ic*kh*kw\<close>
  and \<open>oc*ic*kh*kw\<close> elements. When exactly one of \<open>kh\<close>, \<open>kw\<close> is 1 and the other
  is larger, the descriptors are 2-D with \<open>mb*ic\<close> and \<open>oc*ic\<close> elements, while the
  reference computation calls \<^verbatim>\<open>map_index\<close> with the source descriptor and the
  linear index \<open>mb*ic*kh*kw - 1\<close>, which is not below the element count \<open>mb*ic\<close>.
  (For positive \<open>mb\<close>, \<open>ic\<close>, \<open>oc\<close> and a product \<open>mb*ic*kh*kw\<close> that fits 32 bits.)
\<close>

theorem has_spatial_needs_both_extents:
  assumes "SetUp_descs p = Inr (src_d, weights_d, bias_d, dst_d)"
    and "desc src = src_d"
    and "0 < mb (test_ipd p)" and "0 < ic (test_ipd p)" and "0 < oc (test_ipd p)"
    and "unat (mb (test_ipd p)) * unat (ic (test_ipd p)) * unat (kh (test_ipd p))
           * unat (kw (test_ipd p)) < 2 ^ 32"
  shows "(has_spatial (test_ipd p) \<longleftrightarrow> 1 < kh (test_ipd p) \<and> 1 < kw (test_ipd p))
    \<and> (has_spatial (test_ipd p) \<longrightarrow>
         nelems src_d = unat (mb (test_ipd p)) * unat (ic (test_ipd p)) * unat (kh (test_ipd p))
           * unat (kw (test_ipd p))
         \<and> nelems weights_d = unat (oc (test_ipd p)) * unat (ic (test_ipd p))
           * unat (kh (test_ipd p)) * unat (kw (test_ipd p)))
    \<and> ((kh (test_ipd p) = 1 \<and> 1 < kw (test_ipd p)) \<or> (1 < kh (test_ipd p) \<and> kw (test_ipd p) = 1) \<longrightarrow>
         dims src_d = [unat (mb (test_ipd p)), unat (ic (test_ipd p))]
         \<and> dims weights_d = [unat (oc (test_ipd p)), unat (ic (test_ipd p))]
         \<and> nelems src_d = unat (mb (test_ipd p)) * unat (ic (test_ipd p))
         \<and> nelems weights_d = unat (oc (test_ipd p)) * unat (ic (test_ipd p))
         \<and> (src_d, unat (mb (test_ipd p)) * unat (ic (test_ipd p)) * unat (kh (test_ipd p))
                  * unat (kw (test_ipd p)) - 1)
             \<in> set (snd (traced_compute_ref_inner_product_fwd map_index (test_ipd p)
                     src weights bias dst (mem, [])))
         \<and> nelems src_d \<le> unat (mb (test_ipd p)) * unat (ic (test_ipd p))
                  * unat (kh (test_ipd p)) * unat (kw (test_ipd p)) - 1)"
proof (intro conjI impI)
  let ?ipd = "test_ipd p"
  show "has_spatial ?ipd \<longleftrightarrow> 1 < kh ?ipd \<and> 1 < kw ?ipd"
    by (simp add: has_spatial_def)
  note d = SetUp_descs_dims [OF assms(1)]
  {
    assume "has_spatial ?ipd"
    then show "nelems src_d = unat (mb ?ipd) * unat (ic ?ipd) * unat (kh ?ipd) * unat (kw ?ipd)"
      and "nelems weights_d = unat (oc ?ipd) * unat (ic ?ipd) * unat (kh ?ipd) * unat (kw ?ipd)"
      by (simp_all add: nelems_def d)
  }
  assume one: "(kh ?ipd = 1 \<and> 1 < kw ?ipd) \<or> (1 < kh ?ipd \<and> kw ?ipd = 1)"
  then have ns: "\<not> has_spatial ?ipd"
    by (auto simp: has_spatial_def)
  from one have pos: "0 < kh ?ipd" "0 < kw ?ipd"
    by (auto simp: word_gt_0)
  from one have two: "2 \<le> unat (kh ?ipd) * unat (kw ?ipd)"
    by (auto simp: word_less_nat_alt)
  show "dims src_d = [unat (mb ?ipd), unat (ic ?ipd)]"
    and "dims weights_d = [unat (oc ?ipd), unat (ic ?ipd)]"
    and ne: "nelems src_d = unat (mb ?ipd) * unat (ic ?ipd)"
    and "nelems weights_d = unat (oc ?ipd) * unat (ic ?ipd)"
    using ns by (simp_all add: nelems_def d)
  have lt: "mb ?ipd - 1 < mb ?ipd" "oc ?ipd - 1 < oc ?ipd" "ic ?ipd - 1 < ic ?ipd"
    "kh ?ipd - 1 < kh ?ipd" "kw ?ipd - 1 < kw ?ipd"
    using assms(3-5) pos by (simp_all add: pred_less)
  from src_call_traced [OF lt, of src map_index weights bias dst mem]
  show "(src_d, unat (mb ?ipd) * unat (ic ?ipd) * unat (kh ?ipd) * unat (kw ?ipd) - 1)
      \<in> set (snd (traced_compute_ref_inner_product_fwd map_index ?ipd src weights bias dst (mem, [])))"
    by (simp only: unat_last_iidx [OF assms(3,4) pos assms(6)] assms(2))
  have "0 < unat (mb ?ipd) * unat (ic ?ipd)"
    using assms(3,4) by (simp add: unat_gt_0 word_gt_0)
  then have "unat (mb ?ipd) * unat (ic ?ipd) + 1 \<le> (unat (mb ?ipd) * unat (ic ?ipd)) * 2"
    by simp
  also have "\<dots> \<le> (unat (mb ?ipd) * unat (ic ?ipd)) * (unat (kh ?ipd) * unat (kw ?ipd))"
    using two by (rule mult_le_mono2)
  finally show "nelems src_d \<le> unat (mb ?ipd) * unat (ic ?ipd) * unat (kh ?ipd) * unat (kw ?ipd) - 1"
    by (simp add: ne mult.assoc)
qed

theorem has_spatial_needs_both_extents_witness:
  "(\<lparr>dims = [1, 1], prec = f32, fmt = format_nc\<rparr>, 1)
     \<in> set (snd (traced_compute_ref_inner_product_fwd (\<lambda>md i. i)
          \<lparr>mb = 1, ic = 1, oc = 1, kh = 1, kw = 2\<rparr>
          \<lparr>data_handle = 100, desc = \<lparr>dims = [1, 1], prec = f32, fmt = format_nc\<rparr>\<rparr>
          \<lparr>data_handle = 200, desc = \<lparr>dims = [1, 1], prec = f32, fmt = format_oi\<rparr>\<rparr>
          \<lparr>data_handle = 300, desc = \<lparr>dims = [1], prec = f32, fmt = format_x\<rparr>\<rparr>
          \<lparr>data_handle = 400, desc = \<lparr>dims = [1, 1], prec = f32, fmt = format_nc\<rparr>\<rparr>
          (\<lambda>a. int a, [])))
   \<and> nelems \<lparr>dims = [1, 1], prec = f32, fmt = format_nc\<rparr> = 1"
  using has_spatial_needs_both_extents [of
      "\<lparr>aprop_kind = forward, engine_kind = cpu, src_format = format_nc, weights_format = format_oi,
        bias_format = format_x, dst_format = format_nc,
        test_ipd = \<lparr>mb = 1, ic = 1, oc = 1, kh = 1, kw = 2\<rparr>\<rparr>"
      "\<lparr>dims = [1, 1], prec = f32, fmt = format_nc\<rparr>"
      "\<lparr>dims = [1, 1], prec = f32, fmt = format_oi\<rparr>"
      "\<lparr>dims = [1], prec = f32, fmt = format_x\<rparr>"
      "\<lparr>dims = [1, 1], prec = f32, fmt = format_nc\<rparr>"
      "\<lparr>data_handle = 100, desc = \<lparr>dims = [1, 1], prec = f32, fmt = format_nc\<rparr>\<rparr>"
      "\<lambda>md i. i"
      "\<lparr>data_handle = 200, desc = \<lparr>dims = [1, 1], prec = f32, fmt = format_oi\<rparr>\<rparr>"
      "\<lparr>data_handle = 300, desc = \<lparr>dims = [1], prec = f32, fmt = format_x\<rparr>\<rparr>"
      "\<lparr>data_handle = 400, desc = \<lparr>dims = [1, 1], prec = f32, fmt = format_nc\<rparr>\<rparr>"
      "\<lambda>a. int a"]
  by (simp add: SetUp_descs_def create_md_def has_spatial_def nelems_def)

section \<open>Proofs: the layout mapper of the specification\<close>

lemma offset_Cons: "offset (d # ds) (i # idx) = i * prod_list ds + offset ds idx"
  by (simp add: offset_def)

lemma offset_less: "list_all2 (<) idx ds \<Longrightarrow> offset ds idx < prod_list ds"
proof (induction idx ds rule: list_all2_induct)
  case Nil
  show ?case by (simp add: offset_def)
next
  case (Cons i idx d ds)
  have "i * prod_list ds + offset ds idx < i * prod_list ds + prod_list ds"
    using Cons.IH by simp
  also have "\<dots> = Suc i * prod_list ds"
    by simp
  also have "\<dots> \<le> d * prod_list ds"
    using Cons.hyps(1) by (intro mult_le_mono1) simp
  finally show ?case
    by (simp add: offset_Cons)
qed

lemma offset_inject:
  "list_all2 (<) i ds \<Longrightarrow> list_all2 (<) j ds \<Longrightarrow> offset ds i = offset ds j \<Longrightarrow> i = j"
proof (induction ds arbitrary: i j)
  case Nil
  then show ?case by simp
next
  case (Cons d ds)
  from Cons.prems(1) obtain a i' where i: "i = a # i'" "list_all2 (<) i' ds"
    by (auto simp: list_all2_Cons2)
  from Cons.prems(2) obtain b j' where j: "j = b # j'" "list_all2 (<) j' ds"
    by (auto simp: list_all2_Cons2)
  let ?P = "prod_list ds"
  have lt: "offset ds i' < ?P" "offset ds j' < ?P"
    using i(2) j(2) by (simp_all add: offset_less)
  from Cons.prems(3) have eq: "a * ?P + offset ds i' = b * ?P + offset ds j'"
    by (simp add: i j offset_Cons)
  have "(a * ?P + offset ds i') div ?P = a" "(b * ?P + offset ds j') div ?P = b"
    using lt by simp_all
  with eq have ab: "a = b"
    by simp
  with eq have "offset ds i' = offset ds j'"
    by simp
  with Cons.IH [OF i(2) j(2)] ab show ?case
    by (simp add: i j)
qed

lemma valid_physical_index:
  assumes "length (dims md) = format_rank (fmt md)" and "list_all2 (<) idx (dims md)"
  shows "list_all2 (<) (physical_index md idx) (physical_dims md)"
proof (cases "blocking (fmt md)")
  case None
  with assms(2) show ?thesis
    by (simp add: physical_index_def physical_dims_def)
next
  case (Some ab)
  then have ab: "ab = (1, 8)"
    by (cases "fmt md") simp_all
  from Some ab assms(1) have len: "1 < length (dims md)"
    by (cases "fmt md") simp_all
  with assms(2) have "idx ! 1 < dims md ! 1"
    by (simp add: list_all2_conv_all_nth)
  then have "idx ! 1 div 8 < (dims md ! 1 + 8 - 1) div 8"
    by simp
  with assms(2) have "list_all2 (<) (idx [1 := idx ! 1 div 8])
      ((dims md) [1 := (dims md ! 1 + 8 - 1) div 8])"
    by (rule list_all2_update_cong)
  then show ?thesis
    using Some ab by (simp add: physical_index_def physical_dims_def list_all2_appendI)
qed

lemma physical_index_inject:
  assumes "length (dims md) = format_rank (fmt md)"
    and "length i = length (dims md)" and "length j = length (dims md)"
    and "physical_index md i = physical_index md j"
  shows "i = j"
proof (cases "blocking (fmt md)")
  case None
  with assms(4) show ?thesis
    by (simp add: physical_index_def)
next
  case (Some ab)
  then have ab: "ab = (1, 8)"
    by (cases "fmt md") simp_all
  from Some ab assms(1) have len: "1 < length (dims md)"
    by (cases "fmt md") simp_all
  from assms(4) Some ab have upd: "i [1 := i ! 1 div 8] = j [1 := j ! 1 div 8]"
    and md: "i ! 1 mod 8 = j ! 1 mod 8"
    by (simp_all add: physical_index_def)
  have "(i [1 := i ! 1 div 8]) ! 1 = i ! 1 div 8" "(j [1 := j ! 1 div 8]) ! 1 = j ! 1 div 8"
    using len assms(2,3) by simp_all
  with upd have dv: "i ! 1 div 8 = j ! 1 div 8"
    by simp
  have "i ! 1 = i ! 1 div 8 * 8 + i ! 1 mod 8"
    by simp
  also have "\<dots> = j ! 1 div 8 * 8 + j ! 1 mod 8"
    by (simp only: dv md)
  also have "\<dots> = j ! 1"
    by simp
  finally have one: "i ! 1 = j ! 1" .
  show ?thesis
  proof (rule nth_equalityI)
    show "length i = length j"
      using assms(2,3) by simp
  next
    fix n
    assume "n < length i"
    show "i ! n = j ! n"
    proof (cases "n = 1")
      case True
      with one show ?thesis by simp
    next
      case False
      then have "i ! n = (i [1 := i ! 1 div 8]) ! n" "j ! n = (j [1 := j ! 1 div 8]) ! n"
        by simp_all
      with upd show ?thesis
        by simp
    qed
  qed
qed

lemma valid_index_dims_pos:
  assumes "list_all2 (<) idx ds"
  shows "(0::nat) \<notin> set ds"
proof
  assume "0 \<in> set ds"
  then obtain n where "n < length ds" "ds ! n = 0"
    by (auto simp: in_set_conv_nth)
  with assms have "idx ! n < 0"
    by (auto simp: list_all2_conv_all_nth)
  then show False
    by simp
qed

text \<open>
  Claim C4. For every memory descriptor that \<open>create_md\<close> builds from a layout
  tag, the layout mapper returns an offset for every valid logical index, the
  offset is below the physical footprint of the memory, and two valid logical
  indices with the same offset are equal.
\<close>

theorem layout_mapper_injective_in_footprint:
  assumes "create_md ds pr f = Inr md"
    and "valid_index md i" and "valid_index md j"
  shows "(\<exists>a. layout_mapper md i = Inr a \<and> a < footprint md)
       \<and> (layout_mapper md i = layout_mapper md j \<longrightarrow> i = j)"
proof -
  from assms(1) have rank: "length (dims md) = format_rank (fmt md)"
    by (auto simp: create_md_def split: if_splits)
  from assms(2,3) have ij: "list_all2 (<) i (dims md)" "list_all2 (<) j (dims md)"
    by (simp_all add: valid_index_def)
  have pos: "0 \<notin> set (dims md)"
    using ij(1) by (rule valid_index_dims_pos)
  note pi = valid_physical_index [OF rank ij(1)] and pj = valid_physical_index [OF rank ij(2)]
  have "offset (physical_dims md) (physical_index md i) < footprint md"
    unfolding footprint_def using pi by (rule offset_less)
  moreover have "i = j" if "layout_mapper md i = layout_mapper md j"
  proof -
    from that pos have "offset (physical_dims md) (physical_index md i)
        = offset (physical_dims md) (physical_index md j)"
      by (simp add: layout_mapper_def)
    with pi pj have "physical_index md i = physical_index md j"
      by (rule offset_inject)
    moreover from ij have "length i = length (dims md)" "length j = length (dims md)"
      by (simp_all add: list_all2_lengthD)
    ultimately show ?thesis
      by (rule physical_index_inject [OF rank, rotated 2])
  qed
  ultimately show ?thesis
    using pos by (simp add: layout_mapper_def)
qed


theorem layout_mapper_injective_in_footprint_witness:
  "layout_mapper \<lparr>dims = [2, 12, 3, 3], prec = f32, fmt = format_nChw8c\<rparr> [1, 9, 2, 0] = Inr 265
   \<and> (265 :: nat) < footprint \<lparr>dims = [2, 12, 3, 3], prec = f32, fmt = format_nChw8c\<rparr>
   \<and> layout_mapper \<lparr>dims = [2, 12, 3, 3], prec = f32, fmt = format_nChw8c\<rparr> [1, 9, 2, 0]
       \<noteq> layout_mapper \<lparr>dims = [2, 12, 3, 3], prec = f32, fmt = format_nChw8c\<rparr> [1, 1, 2, 1]"
  using layout_mapper_injective_in_footprint [of "[2, 12, 3, 3]" f32 format_nChw8c
      "\<lparr>dims = [2, 12, 3, 3], prec = f32, fmt = format_nChw8c\<rparr>" "[1, 9, 2, 0]" "[1, 1, 2, 1]"]
  by (simp add: create_md_def valid_index_def layout_mapper_def offset_def physical_dims_def
      physical_index_def footprint_def)

section \<open>Proofs: the constraint check of the specification\<close>

text \<open>
  Claim C6. The constraint check fails for an operation descriptor with zero
  input or output channels and for an unsupported engine kind; it returns
  \<open>UnsupportedEngine\<close> exactly for an unsupported kind and \<open>InvalidOperationShape\<close>
  only for zero channels, and for a supported kind with zero channels it does
  return it; whenever it fails, no primitive descriptor is constructed. The
  check is a function of its arguments, so it has no effect besides its result.
\<close>

theorem constraint_rejects:
  "(input_channels conv_d = 0 \<or> output_channels conv_d = 0 \<longrightarrow>
       constraint supported conv_d eng \<noteq> Success)
   \<and> (\<not> supported (kind eng) \<longrightarrow> constraint supported conv_d eng \<noteq> Success)
   \<and> (constraint supported conv_d eng = UnsupportedEngine \<longleftrightarrow> \<not> supported (kind eng))
   \<and> (constraint supported conv_d eng = InvalidOperationShape \<longrightarrow>
         input_channels conv_d = 0 \<or> output_channels conv_d = 0)
   \<and> (supported (kind eng) \<and> (input_channels conv_d = 0 \<or> output_channels conv_d = 0) \<longrightarrow>
         constraint supported conv_d eng = InvalidOperationShape)
   \<and> (constraint supported conv_d eng \<noteq> Success \<longrightarrow>
         primitive_desc_create supported conv_d eng = Inl (constraint supported conv_d eng))"
  by (auto simp: constraint_def primitive_desc_create_def split: status_t.splits)

theorem constraint_rejects_witness:
  "constraint (\<lambda>k. k = cpu)
      \<lparr>minibatch = 2, input_channels = 0, output_channels = 4, kernel_height = 1, kernel_width = 1\<rparr>
      \<lparr>kind = cpu, index = 0\<rparr> = InvalidOperationShape
   \<and> constraint (\<lambda>k. k = cpu)
      \<lparr>minibatch = 2, input_channels = 2, output_channels = 4, kernel_height = 1, kernel_width = 1\<rparr>
      \<lparr>kind = cpu_lazy, index = 0\<rparr> = UnsupportedEngine
   \<and> primitive_desc_create (\<lambda>k. k = cpu)
      \<lparr>minibatch = 2, input_channels = 0, output_channels = 4, kernel_height = 1, kernel_width = 1\<rparr>
      \<lparr>kind = cpu, index = 0\<rparr> = Inl InvalidOperationShape"
  using constraint_rejects [of
      "\<lparr>minibatch = 2, input_channels = 0, output_channels = 4, kernel_height = 1, kernel_width = 1\<rparr>"
      "\<lambda>k. k = cpu" "\<lparr>kind = cpu, index = 0\<rparr>"]
    constraint_rejects [of
      "\<lparr>minibatch = 2, input_channels = 2, output_channels = 4, kernel_height = 1, kernel_width = 1\<rparr>"
      "\<lambda>k. k = cpu" "\<lparr>kind = cpu_lazy, index = 0\<rparr>"]
  by simp

end
